theory Spec2Isabelle
  imports
    Main
    "HOL-Library.Multiset"
    "HOL-Library.Word"
    "HOL-Library.List_Lexorder"
    "HOL-Library.Product_Lexorder"
begin

section \<open>Path strings and characters\<close>

text \<open>
  The non-Windows branch of \<^verbatim>\<open>filesystem_utils.h\<close> is modelled: \<^verbatim>\<open>path_t\<close> is
  \<^verbatim>\<open>std::string\<close>, a sequence of bytes.

  \<^verbatim>\<open>char charA = a[0]\<close> is passed to \<^verbatim>\<open>std::isdigit\<close> and \<^verbatim>\<open>std::toupper\<close>, which take
  and return \<^verbatim>\<open>int\<close>. Plain \<^verbatim>\<open>char\<close> is signed on the platforms this branch is built
  for (x86-64 Linux), so a byte above 127 reaches them as a negative number: byte 0xFF
  as \<open>-1\<close>, byte 0x80 as \<open>-128\<close>.
\<close>

type_synonym path_t = string

definition char_int :: "char \<Rightarrow> int" where
  "char_int c = (if (of_char c :: int) < 128 then of_char c else of_char c - 256)"

text \<open>
  \<^verbatim>\<open>isdigit\<close> and \<^verbatim>\<open>toupper\<close> in the "C" locale. On the codes 0..127 and on \<open>-1\<close> (which is
  \<^verbatim>\<open>EOF\<close>) they are as the C standard defines them. The standard leaves them undefined
  on the other negative numbers; there the model follows the tables of the GNU C
  library, in which no negative number is a digit and \<open>toupper c\<close> is \<open>c + 256\<close>, the
  byte's unsigned value.
\<close>

definition isdigit :: "int \<Rightarrow> bool" where
  "isdigit c = (48 \<le> c \<and> c \<le> 57)"

definition toupper :: "int \<Rightarrow> int" where
  "toupper c =
    (if 97 \<le> c \<and> c \<le> 122 then c - 32
     else if - 128 \<le> c \<and> c \<le> - 2 then c + 256
     else c)"

text \<open>\<^verbatim>\<open>a.substr(pos)\<close>; every call below has \<open>pos \<le> length a\<close>, where it does not throw.\<close>

definition substr :: "path_t \<Rightarrow> nat \<Rightarrow> path_t" where
  "substr a pos = drop pos a"

text \<open>\<^verbatim>\<open>a.substr(pos, n)\<close>, under the same condition.\<close>

definition substr2 :: "path_t \<Rightarrow> nat \<Rightarrow> nat \<Rightarrow> path_t" where
  "substr2 a pos n = take n (drop pos a)"

section \<open>The string stream\<close>

text \<open>
  \<^verbatim>\<open>std::istringstream\<close> as the characters not yet read and the two state bits that the
  calls below can set. A stream is good when neither bit is set.
\<close>

record istringstream =
  unread :: string
  failbit :: bool
  eofbit :: bool

definition istringstream_of :: "string \<Rightarrow> istringstream" where
  "istringstream_of s = \<lparr>unread = s, failbit = False, eofbit = False\<rparr>"

definition INT_MAX :: int where
  "INT_MAX = 2147483647"

definition is_digit_char :: "char \<Rightarrow> bool" where
  "is_digit_char c = isdigit (char_int c)"

text \<open>The decimal value of a run of digit characters, most significant first.\<close>

definition digit_value :: "string \<Rightarrow> int" where
  "digit_value ds = foldl (\<lambda>v c. 10 * v + (char_int c - 48)) 0 ds"

text \<open>
  \<^verbatim>\<open>iss >> i\<close> for \<^verbatim>\<open>int i\<close>, on a good stream whose next character is a decimal digit,
  which is how \<open>compare_path_natural\<close> calls it (so the skipping of leading white space
  and the reading of a sign, which happen before the first digit, are not modelled).
  All digits of the run are consumed. A value above \<^verbatim>\<open>INT_MAX\<close> is stored as
  \<^verbatim>\<open>INT_MAX\<close> and sets \<^verbatim>\<open>failbit\<close> (the rule of C++11 and later); reaching the end of the
  string while reading sets \<^verbatim>\<open>eofbit\<close>. With no digit at all the extraction fails and
  stores zero.
\<close>

definition extract_int :: "istringstream \<Rightarrow> int \<times> istringstream" where
  "extract_int iss =
    (let ds = takeWhile is_digit_char (unread iss);
         rest = dropWhile is_digit_char (unread iss)
     in if ds = [] then (0, iss\<lparr>failbit := True\<rparr>)
        else if INT_MAX < digit_value ds
          then (INT_MAX, \<lparr>unread = rest, failbit = True, eofbit = (rest = [])\<rparr>)
          else (digit_value ds, \<lparr>unread = rest, failbit = failbit iss, eofbit = (rest = [])\<rparr>))"

definition newline :: char where
  "newline = CHR 0x0A"

text \<open>
  \<^verbatim>\<open>std::getline(iss, str)\<close>. On a stream that is not good, the sentry sets \<^verbatim>\<open>failbit\<close>
  and \<open>str\<close> is left as it was. Otherwise \<open>str\<close> is replaced by the characters up to
  the first newline (which is consumed and not stored) or up to the end of the string.
\<close>

definition getline :: "istringstream \<Rightarrow> string \<Rightarrow> string \<times> istringstream" where
  "getline iss str =
    (if failbit iss \<or> eofbit iss then (str, iss\<lparr>failbit := True\<rparr>)
     else
       (let line = takeWhile (\<lambda>c. c \<noteq> newline) (unread iss)
        in case dropWhile (\<lambda>c. c \<noteq> newline) (unread iss) of
             [] \<Rightarrow> (line, \<lparr>unread = [], failbit = (line = []), eofbit = True\<rparr>)
           | _ # rest \<Rightarrow> (line, \<lparr>unread = rest, failbit = False, eofbit = False\<rparr>)))"

section \<open>The natural path comparator\<close>

text \<open>
  One call of \<^verbatim>\<open>compare_path_natural\<close>: it either returns a value or calls itself on two
  new strings and returns what that call returns.
\<close>

datatype outcome = Return bool | Recurse path_t path_t

definition compare_step :: "path_t \<Rightarrow> path_t \<Rightarrow> outcome" where
  "compare_step a b =
    (if a = [] \<or> b = [] then Return (a = [] \<and> b \<noteq> [])
     else
       (let charA = char_int (a ! 0);
            charB = char_int (b ! 0)
        in if isdigit charA \<and> \<not> isdigit charB then Return True
           else if \<not> isdigit charA \<and> isdigit charB then Return False
           else if \<not> isdigit charA \<and> \<not> isdigit charB then
             (if toupper charA = toupper charB
              then Recurse (substr a 1) (substr b 1)
              else Return (toupper charA < toupper charB))
           else
             (let (ia, issa) = extract_int (istringstream_of a);
                  (ib, issb) = extract_int (istringstream_of b)
              in if ia \<noteq> ib then Return (ia < ib)
                 else
                   (let (anew, issa') = getline issa [];
                        (bnew, issb') = getline issb []
                    in Recurse anew bnew))))"

text \<open>The string that the digit branch recurses on: what \<open>getline\<close> yields after \<open>>>\<close>.\<close>

definition remainder :: "path_t \<Rightarrow> path_t" where
  "remainder a = fst (getline (snd (extract_int (istringstream_of a))) [])"

definition parsed :: "path_t \<Rightarrow> int" where
  "parsed a = fst (extract_int (istringstream_of a))"

lemma length_takeWhile_less:
  "length (takeWhile P xs) \<le> length xs"
  by (induction xs) auto

lemma remainder_shorter:
  assumes "a \<noteq> []" "is_digit_char (a ! 0)"
  shows "length (remainder a) < length a"
proof -
  obtain c cs where a: "a = c # cs" using assms(1) by (cases a) auto
  with assms(2) have c: "is_digit_char c" by simp
  have "length (takeWhile (\<lambda>c. c \<noteq> newline) (dropWhile is_digit_char cs)) \<le> length cs"
    by (rule order_trans [OF length_takeWhile_less length_dropWhile_le])
  then show ?thesis
    using c by (auto simp: remainder_def extract_int_def getline_def istringstream_of_def
        a Let_def split: list.splits)
qed

lemma compare_step_Recurse:
  assumes "compare_step a b = Recurse a' b'"
  shows "a \<noteq> [] \<and> b \<noteq> [] \<and> length a' < length a \<and> length b' < length b"
proof -
  have ne: "a \<noteq> []" "b \<noteq> []"
    using assms by (auto simp: compare_step_def)
  show ?thesis
  proof (cases "isdigit (char_int (a ! 0))")
    case False
    then show ?thesis
      using assms ne
      by (auto simp: compare_step_def substr_def Let_def split: if_splits)
  next
    case True
    then have db: "isdigit (char_int (b ! 0))"
      using assms ne by (auto simp: compare_step_def Let_def split: if_splits)
    have "a' = remainder a" "b' = remainder b"
      using assms ne True db
      by (auto simp: compare_step_def Let_def remainder_def split: if_splits prod.splits)
    then show ?thesis
      using ne True db remainder_shorter [of a] remainder_shorter [of b]
      by (simp add: is_digit_char_def)
  qed
qed

function compare_path_natural :: "path_t \<Rightarrow> path_t \<Rightarrow> bool" where
  "compare_path_natural a b =
    (case compare_step a b of
       Return r \<Rightarrow> r
     | Recurse anew bnew \<Rightarrow> compare_path_natural anew bnew)"
  by pat_completeness auto
termination
  by (relation "measure (\<lambda>(a, b). length a + length b)")
     (auto dest: compare_step_Recurse)

declare compare_path_natural.simps [simp del]

text \<open>
  The same recursion with a bound on the number of calls: \<open>None\<close> when the bound is
  used up before a call returns.
\<close>

fun compare_path_natural_fuel :: "nat \<Rightarrow> path_t \<Rightarrow> path_t \<Rightarrow> bool option" where
  "compare_path_natural_fuel 0 a b = None"
| "compare_path_natural_fuel (Suc n) a b =
    (case compare_step a b of
       Return r \<Rightarrow> Some r
     | Recurse anew bnew \<Rightarrow> compare_path_natural_fuel n anew bnew)"

text \<open>Two strings are equivalent under the comparator when neither is less than the other.\<close>

definition equivalent :: "path_t \<Rightarrow> path_t \<Rightarrow> bool" where
  "equivalent a b = (\<not> compare_path_natural a b \<and> \<not> compare_path_natural b a)"

subsection \<open>The ordering key\<close>

text \<open>
  The comparator reads each string as a sequence of tokens: a digit run read by \<open>>>\<close>
  (tagged \<open>False\<close>, with the value read) or a single other character (tagged \<open>True\<close>,
  with its upper-case code). It is the lexicographic order on these sequences, where a
  digit run comes before any other character.
\<close>

function path_key :: "path_t \<Rightarrow> (bool \<times> int) list" where
  "path_key a =
    (if a = [] then []
     else if is_digit_char (a ! 0) then (False, parsed a) # path_key (remainder a)
     else (True, toupper (char_int (a ! 0))) # path_key (substr a 1))"
  by pat_completeness auto
termination
  by (relation "measure length") (auto simp: remainder_shorter substr_def)

declare path_key.simps [simp del]

section \<open>Listing a directory\<close>

text \<open>
  A directory entry as \<^verbatim>\<open>readdir\<close> reports it: the type byte and the name. The file
  system is what \<^verbatim>\<open>opendir\<close> sees: for each path, the entries in the order in which
  \<^verbatim>\<open>readdir\<close> will enumerate them, or nothing when the path cannot be opened.
\<close>

record dirent =
  d_type :: "8 word"
  d_name :: string

definition DT_REG :: "8 word" where
  "DT_REG = 8"

definition DT_DIR :: "8 word" where
  "DT_DIR = 4"

type_synonym filesystem = "path_t \<Rightarrow> dirent list option"

definition opendir :: "filesystem \<Rightarrow> path_t \<Rightarrow> dirent list option" where
  "opendir fs dirpath = fs dirpath"

text \<open>The \<^verbatim>\<open>while ((ent = readdir(dir)))\<close> loop, over the entries still to be read.\<close>

fun readdir_loop :: "dirent list \<Rightarrow> path_t list \<Rightarrow> path_t list" where
  "readdir_loop [] imagepaths = imagepaths"
| "readdir_loop (ent # dir) imagepaths =
    (if d_type ent \<noteq> DT_REG then readdir_loop dir imagepaths
     else readdir_loop dir (imagepaths @ [d_name ent]))"

text \<open>
  \<^verbatim>\<open>std::sort(first, last, comp)\<close> is known by its contract only: for a strict weak
  ordering \<open>lt\<close> as the comparator, the range afterwards holds the same elements,
  sorted with respect to \<open>lt\<close> (no element is less than one before it); the order of
  equivalent elements is not guaranteed to be preserved. \<open>std_sort lt xs ys\<close> says that
  \<open>ys\<close> is a permitted content of the range after sorting \<open>xs\<close>. That
  \<open>compare_path_natural\<close> is a strict weak ordering is proved below.
\<close>

definition sorted_by :: "('a \<Rightarrow> 'a \<Rightarrow> bool) \<Rightarrow> 'a list \<Rightarrow> bool" where
  "sorted_by lt ys = sorted_wrt (\<lambda>x y. \<not> lt y x) ys"

definition std_sort :: "('a \<Rightarrow> 'a \<Rightarrow> bool) \<Rightarrow> 'a list \<Rightarrow> 'a list \<Rightarrow> bool" where
  "std_sort lt xs ys = (mset ys = mset xs \<and> sorted_by lt ys)"

text \<open>
  \<open>list_directory fs dirpath imagepaths (status, imagepaths')\<close>: called with the vector
  holding \<open>imagepaths\<close>, the function can return \<open>status\<close> and leave \<open>imagepaths'\<close>
  in the vector. The vector is cleared before the directory is opened.
\<close>

definition list_directory ::
  "filesystem \<Rightarrow> path_t \<Rightarrow> path_t list \<Rightarrow> int \<times> path_t list \<Rightarrow> bool" where
  "list_directory fs dirpath imagepaths res =
    (let cleared = [] :: path_t list
     in case opendir fs dirpath of
          None \<Rightarrow> res = (- 1, cleared)
        | Some dir \<Rightarrow>
            fst res = 0 \<and> std_sort compare_path_natural (readdir_loop dir cleared) (snd res))"

text \<open>The names of the entries that \<open>readdir\<close> reports as regular files, in its order.\<close>

definition regular_names :: "dirent list \<Rightarrow> path_t list" where
  "regular_names dir = map d_name (filter (\<lambda>ent. d_type ent = DT_REG) dir)"

text \<open>
  An example file system: one directory, \<open>frames\<close>, with four regular files, the two
  entries \<open>.\<close> and \<open>..\<close> and a subdirectory; no other path can be opened.
\<close>

definition frames_fs :: filesystem where
  "frames_fs dirpath =
    (if dirpath = ''frames'' then
       Some [\<lparr>d_type = DT_DIR, d_name = ''.''\<rparr>,
             \<lparr>d_type = DT_REG, d_name = ''img2.jpg''\<rparr>,
             \<lparr>d_type = DT_DIR, d_name = ''..''\<rparr>,
             \<lparr>d_type = DT_REG, d_name = ''img10.jpg''\<rparr>,
             \<lparr>d_type = DT_DIR, d_name = ''img5.jpg''\<rparr>,
             \<lparr>d_type = DT_REG, d_name = ''img1.jpg''\<rparr>,
             \<lparr>d_type = DT_REG, d_name = ''IMG3.jpg''\<rparr>]
     else None)"

text \<open>
  A second example: a directory \<open>bytes\<close> whose three regular files have names that
  start with the byte 0x80, the letter \<open>a\<close> and the byte 0xFF.
\<close>

definition bytes_fs :: filesystem where
  "bytes_fs dirpath =
    (if dirpath = ''bytes'' then
       Some [\<lparr>d_type = DT_REG, d_name = CHR 0x80 # ''.png''\<rparr>,
             \<lparr>d_type = DT_REG, d_name = ''a.png''\<rparr>,
             \<lparr>d_type = DT_REG, d_name = CHR 0xFF # ''.png''\<rparr>]
     else None)"

section \<open>Splitting a file name\<close>

text \<open>\<^verbatim>\<open>path.rfind(c)\<close>: the last index holding \<open>c\<close>; \<open>None\<close> stands for \<^verbatim>\<open>npos\<close>.\<close>

fun rfind :: "path_t \<Rightarrow> char \<Rightarrow> nat option" where
  "rfind [] c = None"
| "rfind (x # xs) c =
    (case rfind xs c of
       Some i \<Rightarrow> Some (Suc i)
     | None \<Rightarrow> if x = c then Some 0 else None)"

definition get_file_name_without_extension :: "path_t \<Rightarrow> path_t" where
  "get_file_name_without_extension path =
    (case rfind path (CHR ''.'') of
       None \<Rightarrow> path
     | Some dot \<Rightarrow> substr2 path 0 dot)"

definition get_file_extension :: "path_t \<Rightarrow> path_t" where
  "get_file_extension path =
    (case rfind path (CHR ''.'') of
       None \<Rightarrow> []
     | Some dot \<Rightarrow> substr path (dot + 1))"

section \<open>One call of the comparator, case by case\<close>

lemma compare_step_digits:
  "is_digit_char x \<Longrightarrow> is_digit_char y \<Longrightarrow>
   compare_step (x # xs) (y # ys) =
     (if parsed (x # xs) \<noteq> parsed (y # ys) then Return (parsed (x # xs) < parsed (y # ys))
      else Recurse (remainder (x # xs)) (remainder (y # ys)))"
  by (simp add: compare_step_def is_digit_char_def parsed_def remainder_def Let_def
      case_prod_beta)

lemma compare_step_nondigits:
  "\<not> is_digit_char x \<Longrightarrow> \<not> is_digit_char y \<Longrightarrow>
   compare_step (x # xs) (y # ys) =
     (if toupper (char_int x) = toupper (char_int y) then Recurse xs ys
      else Return (toupper (char_int x) < toupper (char_int y)))"
  by (simp add: compare_step_def is_digit_char_def substr_def)

lemma compare_path_natural_empty_iff:
  "a = [] \<or> b = [] \<Longrightarrow> compare_path_natural a b = (a = [] \<and> b \<noteq> [])"
  by (subst compare_path_natural.simps) (auto simp: compare_step_def)

lemma compare_path_natural_digit_nondigit:
  "is_digit_char x \<Longrightarrow> \<not> is_digit_char y \<Longrightarrow> compare_path_natural (x # xs) (y # ys)"
  by (subst compare_path_natural.simps) (simp add: compare_step_def is_digit_char_def)

lemma compare_path_natural_nondigit_digit:
  "\<not> is_digit_char x \<Longrightarrow> is_digit_char y \<Longrightarrow> \<not> compare_path_natural (x # xs) (y # ys)"
  by (subst compare_path_natural.simps) (simp add: compare_step_def is_digit_char_def)

lemma compare_path_natural_nondigits:
  "\<not> is_digit_char x \<Longrightarrow> \<not> is_digit_char y \<Longrightarrow>
   compare_path_natural (x # xs) (y # ys) =
     (if toupper (char_int x) = toupper (char_int y) then compare_path_natural xs ys
      else toupper (char_int x) < toupper (char_int y))"
  by (subst compare_path_natural.simps)
     (simp add: compare_step_def is_digit_char_def substr_def)

lemma compare_path_natural_digits:
  "is_digit_char x \<Longrightarrow> is_digit_char y \<Longrightarrow>
   compare_path_natural (x # xs) (y # ys) =
     (if parsed (x # xs) \<noteq> parsed (y # ys) then parsed (x # xs) < parsed (y # ys)
      else compare_path_natural (remainder (x # xs)) (remainder (y # ys)))"
  by (subst compare_path_natural.simps)
     (simp add: compare_step_def is_digit_char_def parsed_def remainder_def Let_def
        split: prod.splits)

lemma parsed_digits:
  "is_digit_char x \<Longrightarrow>
   parsed (x # xs) = min INT_MAX (digit_value (takeWhile is_digit_char (x # xs)))"
  by (simp add: parsed_def extract_int_def istringstream_of_def Let_def)

lemma remainder_digits:
  assumes "is_digit_char x"
  shows "remainder (x # xs) =
     (if INT_MAX < digit_value (takeWhile is_digit_char (x # xs)) then []
      else takeWhile (\<lambda>c. c \<noteq> newline) (dropWhile is_digit_char (x # xs)))"
proof (cases "dropWhile is_digit_char xs = []")
  case True
  show ?thesis
    using assms
    by (simp add: True remainder_def extract_int_def istringstream_of_def getline_def Let_def)
next
  case False
  with assms show ?thesis
    by (auto simp: remainder_def extract_int_def istringstream_of_def getline_def Let_def
        split: list.splits)
qed

section \<open>The comparator as an order on keys\<close>

lemma path_key_Nil: "path_key [] = []"
  by (subst path_key.simps) simp

lemma path_key_digit:
  "is_digit_char x \<Longrightarrow> path_key (x # xs) = (False, parsed (x # xs)) # path_key (remainder (x # xs))"
  by (subst path_key.simps) simp

lemma path_key_nondigit:
  "\<not> is_digit_char x \<Longrightarrow> path_key (x # xs) = (True, toupper (char_int x)) # path_key xs"
  by (subst path_key.simps) (simp add: substr_def)

lemma path_key_eq_Nil: "path_key a = [] \<longleftrightarrow> a = []"
proof (cases a)
  case Nil
  then show ?thesis by (simp add: path_key_Nil)
next
  case (Cons x xs)
  then show ?thesis
    by (cases "is_digit_char x") (simp_all add: path_key_digit path_key_nondigit)
qed

lemma less_Nil_iff: "([] :: (bool \<times> int) list) < k \<longleftrightarrow> k \<noteq> []"
  by (cases k) simp_all

lemma compare_path_natural_key:
  "compare_path_natural a b \<longleftrightarrow> path_key a < path_key b"
proof (induction a b rule: compare_path_natural.induct)
  case (1 a b)
  show ?case
  proof (cases "a = [] \<or> b = []")
    case True
    then show ?thesis
      by (auto simp: compare_path_natural_empty_iff path_key_Nil less_Nil_iff path_key_eq_Nil)
  next
    case False
    then obtain x xs y ys where ab: "a = x # xs" "b = y # ys"
      by (cases a; cases b) auto
    consider (dn) "is_digit_char x" "\<not> is_digit_char y"
      | (nd) "\<not> is_digit_char x" "is_digit_char y"
      | (nn) "\<not> is_digit_char x" "\<not> is_digit_char y"
      | (dd) "is_digit_char x" "is_digit_char y"
      by blast
    then show ?thesis
    proof cases
      case dn
      then show ?thesis
        by (simp add: ab compare_path_natural_digit_nondigit path_key_digit path_key_nondigit)
    next
      case nd
      then show ?thesis
        by (simp add: ab compare_path_natural_nondigit_digit path_key_digit path_key_nondigit)
    next
      case nn
      show ?thesis
      proof (cases "toupper (char_int x) = toupper (char_int y)")
        case True
        with nn have "compare_step a b = Recurse xs ys"
          by (simp add: ab compare_step_def is_digit_char_def substr_def)
        from "1.IH" [OF this] show ?thesis
          using nn True
          by (simp add: ab compare_path_natural_nondigits path_key_nondigit)
      next
        case False
        with nn show ?thesis
          by (simp add: ab compare_path_natural_nondigits path_key_nondigit)
      qed
    next
      case dd
      show ?thesis
      proof (cases "parsed a = parsed b")
        case True
        with dd have "compare_step a b = Recurse (remainder a) (remainder b)"
          by (simp add: ab compare_step_digits)
        from "1.IH" [OF this] show ?thesis
          using dd True
          by (simp add: ab compare_path_natural_digits path_key_digit)
      next
        case False
        with dd show ?thesis
          by (simp add: ab compare_path_natural_digits path_key_digit)
      qed
    qed
  qed
qed

section \<open>The empty-string rule\<close>

text \<open>
  C7. The empty string is less than every non-empty string; it is not less than itself;
  and no string is less than the empty string.
\<close>

theorem empty_string_rule:
  "(b \<noteq> [] \<longrightarrow> compare_path_natural [] b)
   \<and> \<not> compare_path_natural [] []
   \<and> \<not> compare_path_natural a []"
  by (simp add: compare_path_natural_empty_iff)

theorem empty_string_rule_witness:
  "compare_path_natural [] ''a''
   \<and> \<not> compare_path_natural [] []
   \<and> \<not> compare_path_natural ''a'' []"
  using empty_string_rule [of "''a''" "''a''"] by simp

section \<open>Strict weak ordering\<close>

text \<open>
  C3. \<open>compare_path_natural\<close> is a strict weak ordering: no string is less than itself;
  two strings are never each less than the other; less-than is transitive; being
  incomparable (neither less than the other) is transitive. In particular
  \<open>file1.png < file2.png < file10.png\<close>.
\<close>

theorem compare_path_natural_strict_weak_order:
  "\<not> compare_path_natural a a
   \<and> \<not> (compare_path_natural a b \<and> compare_path_natural b a)
   \<and> (compare_path_natural a b \<and> compare_path_natural b c \<longrightarrow> compare_path_natural a c)
   \<and> (\<not> compare_path_natural a b \<and> \<not> compare_path_natural b a
        \<and> \<not> compare_path_natural b c \<and> \<not> compare_path_natural c b
        \<longrightarrow> \<not> compare_path_natural a c \<and> \<not> compare_path_natural c a)
   \<and> compare_path_natural ''file1.png'' ''file2.png''
   \<and> compare_path_natural ''file2.png'' ''file10.png''
   \<and> compare_path_natural ''file1.png'' ''file10.png''"
proof -
  have conc: "compare_path_natural ''file1.png'' ''file2.png''"
    "compare_path_natural ''file2.png'' ''file10.png''"
    "compare_path_natural ''file1.png'' ''file10.png''"
    by code_simp+
  show ?thesis
    unfolding compare_path_natural_key
    using conc [unfolded compare_path_natural_key] by auto
qed

theorem compare_path_natural_strict_weak_order_witness:
  "compare_path_natural ''a1'' ''a2'' \<and> compare_path_natural ''a2'' ''b''
   \<and> compare_path_natural ''a1'' ''b''
   \<and> \<not> compare_path_natural ''B7'' ''b07'' \<and> \<not> compare_path_natural ''b07'' ''B7''
   \<and> \<not> compare_path_natural ''b07'' ''b007'' \<and> \<not> compare_path_natural ''b007'' ''b07''
   \<and> \<not> compare_path_natural ''B7'' ''b007'' \<and> \<not> compare_path_natural ''b007'' ''B7''"
proof -
  have 1: "compare_path_natural ''a1'' ''a2''" by code_simp
  have 2: "compare_path_natural ''a2'' ''b''" by code_simp
  have 3: "\<not> compare_path_natural ''B7'' ''b07''" by code_simp
  have 4: "\<not> compare_path_natural ''b07'' ''B7''" by code_simp
  have 5: "\<not> compare_path_natural ''b07'' ''b007''" by code_simp
  have 6: "\<not> compare_path_natural ''b007'' ''b07''" by code_simp
  show ?thesis
    using compare_path_natural_strict_weak_order [of "''a1''" "''a2''" "''b''"]
      compare_path_natural_strict_weak_order [of "''B7''" "''b07''" "''b007''"]
      1 2 3 4 5 6 by blast
qed

section \<open>Termination\<close>

lemma compare_path_natural_fuel_enough:
  "min (length a) (length b) < n \<Longrightarrow>
   compare_path_natural_fuel n a b = Some (compare_path_natural a b)"
proof (induction a b arbitrary: n rule: compare_path_natural.induct)
  case (1 a b)
  from "1.prems" obtain m where n: "n = Suc m" by (cases n) auto
  show ?case
  proof (cases "compare_step a b")
    case (Return r)
    then show ?thesis
      by (simp add: n compare_path_natural.simps [of a b])
  next
    case (Recurse anew bnew)
    from compare_step_Recurse [OF this] "1.prems"
    have "min (length anew) (length bnew) < m"
      unfolding n by (cases "length a \<le> length b") (simp_all add: min_def)
    from "1.IH" [OF Recurse this] show ?thesis
      by (simp add: n Recurse compare_path_natural.simps [of a b])
  qed
qed

text \<open>
  C8. Every call of \<open>compare_path_natural\<close> returns. A recursive call is made only on
  two non-empty strings, and each of its two arguments is strictly shorter than the
  string it replaces; a call with an empty operand returns at once. So a call on \<open>a\<close>
  and \<open>b\<close> returns after at most \<open>min (length a) (length b)\<close> recursive calls.
\<close>

theorem compare_path_natural_terminates:
  "(\<forall>anew bnew. compare_step a b = Recurse anew bnew \<longrightarrow>
       a \<noteq> [] \<and> b \<noteq> [] \<and> length anew < length a \<and> length bnew < length b)
   \<and> (a = [] \<or> b = [] \<longrightarrow> compare_step a b = Return (a = [] \<and> b \<noteq> []))
   \<and> compare_path_natural_fuel (Suc (min (length a) (length b))) a b
       = Some (compare_path_natural a b)"
proof (intro conjI allI impI)
  fix anew bnew
  assume "compare_step a b = Recurse anew bnew"
  from compare_step_Recurse [OF this]
  show "a \<noteq> []" "b \<noteq> []" "length anew < length a" "length bnew < length b"
    by simp_all
next
  assume "a = [] \<or> b = []"
  then show "compare_step a b = Return (a = [] \<and> b \<noteq> [])"
    by (simp add: compare_step_def)
next
  show "compare_path_natural_fuel (Suc (min (length a) (length b))) a b
       = Some (compare_path_natural a b)"
    by (rule compare_path_natural_fuel_enough) simp
qed

theorem compare_path_natural_terminates_witness:
  "compare_step ''file10.png'' ''file2.png'' = Recurse ''ile10.png'' ''ile2.png''
   \<and> length ''ile10.png'' < length ''file10.png''
   \<and> length ''ile2.png'' < length ''file2.png''
   \<and> compare_step ''.png'' [] = Return False
   \<and> compare_path_natural_fuel 10 ''file10.png'' ''file2.png'' = Some False"
proof -
  have s: "compare_step ''file10.png'' ''file2.png'' = Recurse ''ile10.png'' ''ile2.png''"
    by code_simp
  have c: "compare_path_natural ''file10.png'' ''file2.png'' = False"
    by code_simp
  have m: "Suc (min (length ''file10.png'') (length ''file2.png'')) = 10"
    by simp
  have f: "compare_path_natural_fuel 10 ''file10.png'' ''file2.png'' = Some False"
    using compare_path_natural_terminates [of "''file10.png''" "''file2.png''"]
    unfolding m c by blast
  have e: "compare_step ''.png'' [] = Return False"
    using compare_path_natural_terminates [of "''.png''" "[]"] by simp
  have l: "length ''ile10.png'' < length ''file10.png''"
    "length ''ile2.png'' < length ''file2.png''"
    using compare_path_natural_terminates [of "''file10.png''" "''file2.png''"] s
    by blast+
  from s l e f show ?thesis by blast
qed

section \<open>File name and extension\<close>

lemma rfind_None: "rfind path c = None \<longleftrightarrow> c \<notin> set path"
  by (induction path) (auto split: option.splits)

lemma rfind_Some:
  "rfind path c = Some i \<Longrightarrow>
   i < length path \<and> path = take i path @ c # drop (Suc i) path \<and> c \<notin> set (drop (Suc i) path)"
proof (induction path arbitrary: i)
  case Nil
  then show ?case by simp
next
  case (Cons x xs)
  show ?case
  proof (cases "rfind xs c")
    case None
    with Cons.prems show ?thesis
      by (auto simp: rfind_None split: if_splits)
  next
    case (Some j)
    with Cons.prems have i: "i = Suc j" by simp
    from Cons.IH [OF Some] show ?thesis
      by (simp add: i)
  qed
qed

text \<open>
  C10. For a path that contains a dot, the name without extension, a dot and the
  extension concatenate to the path, and the extension contains no dot (the split is at
  the last dot). For a path without a dot, the name without extension is the path and
  the extension is empty.
\<close>

theorem file_name_extension_split:
  "(CHR ''.'' \<in> set path \<longrightarrow>
      get_file_name_without_extension path @ ''.'' @ get_file_extension path = path
      \<and> CHR ''.'' \<notin> set (get_file_extension path))
   \<and> (CHR ''.'' \<notin> set path \<longrightarrow>
      get_file_name_without_extension path = path \<and> get_file_extension path = [])"
proof (cases "rfind path (CHR ''.'')")
  case None
  have "CHR ''.'' \<notin> set path"
    using None by (simp add: rfind_None)
  then show ?thesis
    by (simp add: get_file_name_without_extension_def get_file_extension_def None)
next
  case (Some dot)
  from rfind_Some [OF Some] have "CHR ''.'' \<in> set path"
    by (metis in_set_conv_decomp)
  with rfind_Some [OF Some] show ?thesis
    by (simp add: get_file_name_without_extension_def get_file_extension_def Some
        substr_def substr2_def)
qed

theorem file_name_extension_split_witness:
  "get_file_name_without_extension ''a.tar.gz'' @ ''.'' @ get_file_extension ''a.tar.gz'' = ''a.tar.gz''
   \<and> get_file_name_without_extension ''a.tar.gz'' = ''a.tar''
   \<and> get_file_extension ''a.tar.gz'' = ''gz''
   \<and> get_file_name_without_extension ''README'' = ''README''
   \<and> get_file_extension ''README'' = []"
  using file_name_extension_split [of "''a.tar.gz''"] file_name_extension_split [of "''README''"]
  by (simp add: get_file_name_without_extension_def get_file_extension_def substr_def substr2_def)

section \<open>Strings that start with two non-digits; case insensitivity\<close>

text \<open>
  Two characters are case variants of each other when they are the same character or
  the upper-case and the lower-case form of the same ASCII letter. Two strings are the
  same up to the case of their letters when they have the same length and are case
  variants position by position.
\<close>

definition upper_letters :: string where
  "upper_letters = ''ABCDEFGHIJKLMNOPQRSTUVWXYZ''"

definition lower_letters :: string where
  "lower_letters = ''abcdefghijklmnopqrstuvwxyz''"

definition case_variant :: "char \<Rightarrow> char \<Rightarrow> bool" where
  "case_variant x y =
    (x = y \<or> (x, y) \<in> set (zip upper_letters lower_letters)
     \<or> (y, x) \<in> set (zip upper_letters lower_letters))"

definition same_up_to_case :: "path_t \<Rightarrow> path_t \<Rightarrow> bool" where
  "same_up_to_case a b = list_all2 case_variant a b"

text \<open>Position by position the same upper-case character code.\<close>

definition same_upper :: "path_t \<Rightarrow> path_t \<Rightarrow> bool" where
  "same_upper a b = list_all2 (\<lambda>x y. toupper (char_int x) = toupper (char_int y)) a b"

lemma zip_letters_toupper:
  assumes "(x, y) \<in> set (zip upper_letters lower_letters)"
  shows "toupper (char_int x) = char_int x \<and> toupper (char_int y) = char_int x"
proof -
  from assms have "(x, y) \<in> {(CHR ''A'', CHR ''a''), (CHR ''B'', CHR ''b''), (CHR ''C'', CHR ''c''),
      (CHR ''D'', CHR ''d''), (CHR ''E'', CHR ''e''), (CHR ''F'', CHR ''f''), (CHR ''G'', CHR ''g''),
      (CHR ''H'', CHR ''h''), (CHR ''I'', CHR ''i''), (CHR ''J'', CHR ''j''), (CHR ''K'', CHR ''k''),
      (CHR ''L'', CHR ''l''), (CHR ''M'', CHR ''m''), (CHR ''N'', CHR ''n''), (CHR ''O'', CHR ''o''),
      (CHR ''P'', CHR ''p''), (CHR ''Q'', CHR ''q''), (CHR ''R'', CHR ''r''), (CHR ''S'', CHR ''s''),
      (CHR ''T'', CHR ''t''), (CHR ''U'', CHR ''u''), (CHR ''V'', CHR ''v''), (CHR ''W'', CHR ''w''),
      (CHR ''X'', CHR ''x''), (CHR ''Y'', CHR ''y''), (CHR ''Z'', CHR ''z'')}"
    by (simp add: upper_letters_def lower_letters_def)
  then show ?thesis
    by (elim insertE emptyE; simp add: toupper_def char_int_def)
qed

lemma case_variant_toupper:
  "case_variant x y \<Longrightarrow> toupper (char_int x) = toupper (char_int y)"
  unfolding case_variant_def
  using zip_letters_toupper [of x y] zip_letters_toupper [of y x] by (elim disjE) simp_all

lemma same_up_to_case_upper: "same_up_to_case a b \<Longrightarrow> same_upper a b"
  unfolding same_up_to_case_def same_upper_def
  by (erule list_all2_mono) (rule case_variant_toupper)

lemma of_char_int_range: "0 \<le> (of_char c :: int) \<and> (of_char c :: int) < 256"
proof -
  have "(of_char c :: nat) mod 256 = of_char c" by simp
  then have "(of_char c :: nat) < 256"
    by (metis mod_less_divisor zero_less_numeral)
  moreover have "(of_char c :: int) = int (of_char c)"
    by (simp add: of_nat_of_char)
  ultimately show ?thesis by simp
qed

lemma char_int_eq_iff: "char_int x = char_int y \<longleftrightarrow> x = y"
proof
  assume "char_int x = char_int y"
  then have "(of_char x :: int) = of_char y"
    using of_char_int_range [of x] of_char_int_range [of y]
    by (auto simp: char_int_def split: if_splits)
  then show "x = y" by simp
qed simp

lemma char_int_newline: "char_int newline = 10"
  by (simp add: char_int_def newline_def)

lemma toupper_eq_digit:
  assumes "toupper (char_int x) = toupper (char_int y)" "is_digit_char x"
  shows "y = x"
proof -
  have "char_int y = char_int x"
    using assms by (auto simp: toupper_def is_digit_char_def isdigit_def split: if_splits)
  then show ?thesis by (simp add: char_int_eq_iff)
qed

lemma toupper_eq_is_digit:
  "toupper (char_int x) = toupper (char_int y) \<Longrightarrow> is_digit_char x = is_digit_char y"
  using toupper_eq_digit [of x y] toupper_eq_digit [of y x] by auto

lemma toupper_eq_newline:
  assumes "toupper (char_int x) = toupper (char_int y)"
  shows "x = newline \<longleftrightarrow> y = newline"
proof -
  have "char_int x = 10 \<longleftrightarrow> char_int y = 10"
    using assms by (auto simp: toupper_def split: if_splits)
  then show ?thesis
    by (metis char_int_eq_iff char_int_newline)
qed

lemma same_upper_digits:
  "same_upper a b \<Longrightarrow>
   takeWhile is_digit_char a = takeWhile is_digit_char b
   \<and> same_upper (dropWhile is_digit_char a) (dropWhile is_digit_char b)"
  unfolding same_upper_def
proof (induction a b rule: list_all2_induct)
  case Nil
  then show ?case by simp
next
  case (Cons x xs y ys)
  then show ?case
    using toupper_eq_digit [of x y] toupper_eq_is_digit [of x y] by auto
qed

lemma same_upper_line:
  "same_upper a b \<Longrightarrow>
   same_upper (takeWhile (\<lambda>c. c \<noteq> newline) a) (takeWhile (\<lambda>c. c \<noteq> newline) b)"
  unfolding same_upper_def
proof (induction a b rule: list_all2_induct)
  case Nil
  then show ?case by simp
next
  case (Cons x xs y ys)
  then show ?case
    using toupper_eq_newline [of x y] by auto
qed

lemma same_upper_parsed_remainder:
  assumes "same_upper (x # xs) (y # ys)" "is_digit_char x"
  shows "parsed (x # xs) = parsed (y # ys)
    \<and> same_upper (remainder (x # xs)) (remainder (y # ys))"
proof -
  have y: "is_digit_char y"
    using assms toupper_eq_is_digit [of x y] by (simp add: same_upper_def)
  from same_upper_digits [OF assms(1)]
  have t: "takeWhile is_digit_char (x # xs) = takeWhile is_digit_char (y # ys)"
    and d: "same_upper (dropWhile is_digit_char (x # xs)) (dropWhile is_digit_char (y # ys))"
    by blast+
  show ?thesis
    unfolding parsed_digits [OF assms(2)] parsed_digits [OF y]
      remainder_digits [OF assms(2)] remainder_digits [OF y] t
    using same_upper_line [OF d] by (simp add: same_upper_def)
qed

lemma same_upper_key:
  "same_upper a b \<Longrightarrow> path_key a = path_key b"
proof (induction a arbitrary: b rule: path_key.induct)
  case (1 a)
  show ?case
  proof (cases a)
    case Nil
    with "1.prems" show ?thesis by (simp add: same_upper_def)
  next
    case (Cons x xs)
    with "1.prems" obtain y ys where b: "b = y # ys"
      and xy: "toupper (char_int x) = toupper (char_int y)"
      and rest: "same_upper xs ys"
      by (cases b) (auto simp: same_upper_def)
    show ?thesis
    proof (cases "is_digit_char x")
      case True
      then have y: "is_digit_char y" using toupper_eq_is_digit [OF xy] by simp
      from same_upper_parsed_remainder [OF "1.prems" [unfolded Cons b] True]
      have p: "parsed a = parsed b" and r: "same_upper (remainder a) (remainder b)"
        by (simp_all add: Cons b)
      from "1.IH"(1) [OF _ _ r] True have "path_key (remainder a) = path_key (remainder b)"
        by (simp add: Cons)
      then show ?thesis
        using True y p by (simp add: Cons b path_key_digit)
    next
      case False
      then have y: "\<not> is_digit_char y" using toupper_eq_is_digit [OF xy] by simp
      from "1.IH"(2) [of ys] False rest have "path_key xs = path_key ys"
        by (simp add: Cons substr_def)
      then show ?thesis
        using False y xy by (simp add: Cons b path_key_nondigit)
    qed
  qed
qed

text \<open>
  C6. For two non-empty strings that both start with a non-digit: when the upper-cased
  first characters are equal, the result is that of comparing the two strings without
  their first character; otherwise it is whether the upper-cased first character of the
  first string is smaller. So neither of \<open>ABC\<close> and \<open>abc\<close> is less than the other, and
  the same holds for any two strings that differ only in the case of their letters.
\<close>

theorem compare_path_natural_non_digits:
  "(a \<noteq> [] \<and> b \<noteq> [] \<and> \<not> isdigit (char_int (a ! 0)) \<and> \<not> isdigit (char_int (b ! 0)) \<longrightarrow>
      compare_path_natural a b =
        (if toupper (char_int (a ! 0)) = toupper (char_int (b ! 0))
         then compare_path_natural (drop 1 a) (drop 1 b)
         else toupper (char_int (a ! 0)) < toupper (char_int (b ! 0))))
   \<and> \<not> compare_path_natural ''ABC'' ''abc''
   \<and> \<not> compare_path_natural ''abc'' ''ABC''
   \<and> (same_up_to_case c d \<longrightarrow> \<not> compare_path_natural c d \<and> \<not> compare_path_natural d c)"
proof (intro conjI impI)
  assume "a \<noteq> [] \<and> b \<noteq> [] \<and> \<not> isdigit (char_int (a ! 0)) \<and> \<not> isdigit (char_int (b ! 0))"
  then obtain x xs y ys where "a = x # xs" "b = y # ys" "\<not> is_digit_char x" "\<not> is_digit_char y"
    by (cases a; cases b) (auto simp: is_digit_char_def)
  then show "compare_path_natural a b =
        (if toupper (char_int (a ! 0)) = toupper (char_int (b ! 0))
         then compare_path_natural (drop 1 a) (drop 1 b)
         else toupper (char_int (a ! 0)) < toupper (char_int (b ! 0)))"
    by (simp add: compare_path_natural_nondigits)
next
  show "\<not> compare_path_natural ''ABC'' ''abc''" by code_simp
  show "\<not> compare_path_natural ''abc'' ''ABC''" by code_simp
next
  assume "same_up_to_case c d"
  from same_upper_key [OF same_up_to_case_upper [OF this]]
  show "\<not> compare_path_natural c d" "\<not> compare_path_natural d c"
    by (simp_all add: compare_path_natural_key)
qed

theorem compare_path_natural_non_digits_witness:
  "compare_path_natural ''img_a'' ''IMG_B'' = compare_path_natural ''mg_a'' ''MG_B''
   \<and> compare_path_natural ''a.png'' ''B.png''
   \<and> compare_path_natural [CHR 0xFF] ''a''
   \<and> \<not> compare_path_natural [CHR 0x80] ''a''
   \<and> \<not> compare_path_natural ''ReadMe10.TXT'' ''readme10.txt''
   \<and> \<not> compare_path_natural ''readme10.txt'' ''ReadMe10.TXT''"
proof -
  have s: "same_up_to_case ''ReadMe10.TXT'' ''readme10.txt''"
    by (simp add: same_up_to_case_def case_variant_def upper_letters_def lower_letters_def)
  have 1: "compare_path_natural ''img_a'' ''IMG_B'' = compare_path_natural ''mg_a'' ''MG_B''"
    using compare_path_natural_non_digits [of "''img_a''" "''IMG_B''" "[]" "[]"]
    by (simp add: isdigit_def toupper_def char_int_def)
  have 2: "compare_path_natural ''a.png'' ''B.png''"
    using compare_path_natural_non_digits [of "''a.png''" "''B.png''" "[]" "[]"]
    by (simp add: isdigit_def toupper_def char_int_def)
  have 3: "\<not> compare_path_natural ''ReadMe10.TXT'' ''readme10.txt''"
    "\<not> compare_path_natural ''readme10.txt'' ''ReadMe10.TXT''"
    using compare_path_natural_non_digits [of "[]" "[]" "''ReadMe10.TXT''" "''readme10.txt''"] s
    by blast+
  have 4: "compare_path_natural [CHR 0xFF] ''a''"
    using compare_path_natural_non_digits [of "[CHR 0xFF]" "''a''" "[]" "[]"]
    by (simp add: isdigit_def toupper_def char_int_def)
  have 5: "\<not> compare_path_natural [CHR 0x80] ''a''"
    using compare_path_natural_non_digits [of "[CHR 0x80]" "''a''" "[]" "[]"]
    by (simp add: isdigit_def toupper_def char_int_def)
  from 1 2 3 4 5 show ?thesis by blast
qed

section \<open>Strings that start with two digits\<close>

text \<open>
  C2. For two strings that both start with a decimal digit, whose leading digit runs
  denote values of at most \<open>INT_MAX\<close>, and in which no newline character follows the
  run: the maximal leading run of digits of each is read as a decimal integer; when the
  two values differ the result is whether the first is smaller; when they are equal the
  result is that of comparing the strings that follow the two runs. So neither of
  \<open>img007.png\<close> and \<open>img7.png\<close> is less than the other.
\<close>

theorem compare_path_natural_both_digits:
  assumes "a \<noteq> []" "b \<noteq> []"
    and "isdigit (char_int (a ! 0))" "isdigit (char_int (b ! 0))"
    and "digit_value (takeWhile is_digit_char a) \<le> INT_MAX"
    and "digit_value (takeWhile is_digit_char b) \<le> INT_MAX"
    and "newline \<notin> set (dropWhile is_digit_char a)"
    and "newline \<notin> set (dropWhile is_digit_char b)"
  shows "compare_path_natural a b =
      (if digit_value (takeWhile is_digit_char a) \<noteq> digit_value (takeWhile is_digit_char b)
       then digit_value (takeWhile is_digit_char a) < digit_value (takeWhile is_digit_char b)
       else compare_path_natural (dropWhile is_digit_char a) (dropWhile is_digit_char b))
    \<and> \<not> compare_path_natural ''img007.png'' ''img7.png''
    \<and> \<not> compare_path_natural ''img7.png'' ''img007.png''"
proof -
  obtain x xs y ys where ab: "a = x # xs" "b = y # ys"
    using assms(1,2) by (cases a; cases b) auto
  have d: "is_digit_char x" "is_digit_char y"
    using assms(3,4) by (simp_all add: ab is_digit_char_def)
  have nl: "takeWhile (\<lambda>c. c \<noteq> newline) (dropWhile is_digit_char a) = dropWhile is_digit_char a"
    "takeWhile (\<lambda>c. c \<noteq> newline) (dropWhile is_digit_char b) = dropWhile is_digit_char b"
    using assms(7,8) by (auto intro: takeWhile_eq_all_conv [THEN iffD2])
  have pa: "parsed a = digit_value (takeWhile is_digit_char a)"
    using assms(5) unfolding ab parsed_digits [OF d(1)] by simp
  have pb: "parsed b = digit_value (takeWhile is_digit_char b)"
    using assms(6) unfolding ab parsed_digits [OF d(2)] by simp
  have ra: "remainder a = dropWhile is_digit_char a"
    using assms(5) nl(1) unfolding ab remainder_digits [OF d(1)] by simp
  have rb: "remainder b = dropWhile is_digit_char b"
    using assms(6) nl(2) unfolding ab remainder_digits [OF d(2)] by simp
  have "compare_path_natural a b =
      (if parsed a \<noteq> parsed b then parsed a < parsed b
       else compare_path_natural (remainder a) (remainder b))"
    unfolding ab by (rule compare_path_natural_digits [OF d])
  moreover have "\<not> compare_path_natural ''img007.png'' ''img7.png''" by code_simp
  moreover have "\<not> compare_path_natural ''img7.png'' ''img007.png''" by code_simp
  ultimately show ?thesis
    unfolding pa pb ra rb by blast
qed

theorem compare_path_natural_both_digits_witness:
  "\<not> compare_path_natural ''10.png'' ''9.png''
   \<and> compare_path_natural ''007a'' ''7b'' = compare_path_natural ''a'' ''b''"
proof -
  have 1: "\<not> compare_path_natural ''10.png'' ''9.png''"
    using compare_path_natural_both_digits [of "''10.png''" "''9.png''"]
    by (simp add: isdigit_def is_digit_char_def char_int_def digit_value_def INT_MAX_def newline_def)
  have 2: "compare_path_natural ''007a'' ''7b'' = compare_path_natural ''a'' ''b''"
    using compare_path_natural_both_digits [of "''007a''" "''7b''"]
    by (simp add: isdigit_def is_digit_char_def char_int_def digit_value_def INT_MAX_def newline_def)
  from 1 2 show ?thesis by blast
qed

text \<open>
  Without the two conditions the statement fails. The runs of \<open>1700000000000.jpg\<close> and
  \<open>1700000000001.jpg\<close> denote different values above \<open>INT_MAX\<close>, the first the smaller,
  yet the first string is not less than the second. And after the equal runs of
  \<open>1a\<newline>b\<close> and \<open>1a\<newline>c\<close> the following strings compare as less, yet the first
  string is not less than the second: \<open>getline\<close> stops at the newline.
\<close>

theorem compare_path_natural_both_digits_counterexample:
  "isdigit (char_int (''1700000000000.jpg'' ! 0))
   \<and> isdigit (char_int (''1700000000001.jpg'' ! 0))
   \<and> digit_value (takeWhile is_digit_char ''1700000000000.jpg'')
       < digit_value (takeWhile is_digit_char ''1700000000001.jpg'')
   \<and> \<not> compare_path_natural ''1700000000000.jpg'' ''1700000000001.jpg''
   \<and> isdigit (char_int ([CHR ''1'', CHR ''a'', newline, CHR ''b''] ! 0))
   \<and> isdigit (char_int ([CHR ''1'', CHR ''a'', newline, CHR ''c''] ! 0))
   \<and> digit_value (takeWhile is_digit_char [CHR ''1'', CHR ''a'', newline, CHR ''b''])
       = digit_value (takeWhile is_digit_char [CHR ''1'', CHR ''a'', newline, CHR ''c''])
   \<and> compare_path_natural (dropWhile is_digit_char [CHR ''1'', CHR ''a'', newline, CHR ''b''])
        (dropWhile is_digit_char [CHR ''1'', CHR ''a'', newline, CHR ''c''])
   \<and> \<not> compare_path_natural [CHR ''1'', CHR ''a'', newline, CHR ''b'']
        [CHR ''1'', CHR ''a'', newline, CHR ''c'']"
  by (intro conjI; code_simp)


section \<open>Digit runs beyond the range of int\<close>

text \<open>
  C5. The comparator has no overflow guard of its own and does not order by numeric
  value beyond the range of \<^verbatim>\<open>int\<close>: for two strings whose leading digit runs both
  denote values above \<open>INT_MAX\<close>, both runs are read as \<open>INT_MAX\<close> and neither string is
  less than the other.
\<close>

theorem compare_path_natural_overflow:
  assumes "a \<noteq> []" "isdigit (char_int (a ! 0))"
    and "INT_MAX < digit_value (takeWhile is_digit_char a)"
    and "b \<noteq> []" "isdigit (char_int (b ! 0))"
    and "INT_MAX < digit_value (takeWhile is_digit_char b)"
  shows "parsed a = INT_MAX \<and> parsed b = INT_MAX
    \<and> \<not> compare_path_natural a b \<and> \<not> compare_path_natural b a"
proof -
  obtain x xs y ys where ab: "a = x # xs" "b = y # ys"
    using assms(1,4) by (cases a; cases b) auto
  have d: "is_digit_char x" "is_digit_char y"
    using assms(2,5) by (simp_all add: ab is_digit_char_def)
  have pa: "parsed a = INT_MAX"
    using assms(3) unfolding ab parsed_digits [OF d(1)] by simp
  have pb: "parsed b = INT_MAX"
    using assms(6) unfolding ab parsed_digits [OF d(2)] by simp
  have ra: "remainder a = []"
    using assms(3) unfolding ab remainder_digits [OF d(1)] by simp
  have rb: "remainder b = []"
    using assms(6) unfolding ab remainder_digits [OF d(2)] by simp
  have cab: "compare_path_natural a b =
      (if parsed a \<noteq> parsed b then parsed a < parsed b
       else compare_path_natural (remainder a) (remainder b))"
    unfolding ab by (rule compare_path_natural_digits [OF d])
  have cba: "compare_path_natural b a =
      (if parsed b \<noteq> parsed a then parsed b < parsed a
       else compare_path_natural (remainder b) (remainder a))"
    unfolding ab by (rule compare_path_natural_digits [OF d(2,1)])
  have "\<not> compare_path_natural a b" "\<not> compare_path_natural b a"
    by (simp_all add: cab cba pa pb ra rb compare_path_natural_empty_iff)
  with pa pb show ?thesis by blast
qed

theorem compare_path_natural_overflow_witness:
  "parsed ''20231231235959.png'' = 2147483647
   \<and> parsed ''20240101000000.png'' = 2147483647
   \<and> \<not> compare_path_natural ''20231231235959.png'' ''20240101000000.png''
   \<and> \<not> compare_path_natural ''20240101000000.png'' ''20231231235959.png''"
  using compare_path_natural_overflow [of "''20231231235959.png''" "''20240101000000.png''"]
  by (simp add: isdigit_def is_digit_char_def char_int_def digit_value_def INT_MAX_def)

text \<open>
  The two runs of \<open>20231231235959.png\<close> and \<open>20240101000000.png\<close> are above \<open>INT_MAX\<close>
  and the first is the smaller number, yet the first string is not less than the second.
\<close>

theorem compare_path_natural_overflow_counterexample:
  "isdigit (char_int (''20231231235959.png'' ! 0))
   \<and> isdigit (char_int (''20240101000000.png'' ! 0))
   \<and> INT_MAX < digit_value (takeWhile is_digit_char ''20231231235959.png'')
   \<and> digit_value (takeWhile is_digit_char ''20231231235959.png'')
       < digit_value (takeWhile is_digit_char ''20240101000000.png'')
   \<and> \<not> compare_path_natural ''20231231235959.png'' ''20240101000000.png''"
  by (intro conjI; code_simp)

section \<open>Sorting with the comparator\<close>

lemma readdir_loop_eq: "readdir_loop dir imagepaths = imagepaths @ regular_names dir"
  by (induction dir arbitrary: imagepaths) (simp_all add: regular_names_def)

lemma sorted_by_key: "sorted_by compare_path_natural ys \<longleftrightarrow> sorted (map path_key ys)"
  by (simp add: sorted_by_def sorted_map compare_path_natural_key not_less)

lemma sorted_wrt_key: "sorted_wrt compare_path_natural zs \<longleftrightarrow> sorted_wrt (<) (map path_key zs)"
proof -
  have "compare_path_natural = (\<lambda>x y. path_key x < path_key y)"
    by (intro ext) (simp add: compare_path_natural_key)
  then show ?thesis
    by (simp add: sorted_wrt_map)
qed

lemma equivalent_key: "equivalent a b \<longleftrightarrow> path_key a = path_key b"
  by (auto simp: equivalent_def compare_path_natural_key)

lemma std_sort_exists: "std_sort compare_path_natural xs (sort_key path_key xs)"
  by (simp add: std_sort_def sorted_by_key)

lemma std_sort_keys:
  assumes "std_sort compare_path_natural xs ys"
  shows "map path_key ys = sort (map path_key xs)"
proof -
  have m: "mset (map path_key ys) = mset (map path_key xs)"
    using assms by (simp add: std_sort_def)
  have s: "sorted (map path_key ys)"
    using assms by (simp add: std_sort_def sorted_by_key)
  show ?thesis
    by (rule properties_for_sort [OF m s, symmetric])
qed

lemma std_sort_unique:
  assumes "std_sort compare_path_natural xs ys" "mset zs = mset xs"
    "sorted_wrt compare_path_natural zs"
  shows "ys = zs"
proof -
  have sd: "sorted (map path_key zs)" "distinct (map path_key zs)"
    using assms(3) by (simp_all add: sorted_wrt_key strict_sorted_iff)
  have "mset (map path_key zs) = mset (map path_key xs)"
    using assms(2) by simp
  then have "sort (map path_key xs) = map path_key zs"
    using sd(1) by (rule properties_for_sort)
  with std_sort_keys [OF assms(1)] have k: "map path_key ys = map path_key zs"
    by simp
  have "set ys = set zs"
    using assms(1,2) by (metis std_sort_def mset_eq_setD)
  moreover have "inj_on path_key (set zs)"
    using sd(2) by (simp add: distinct_map)
  ultimately show ?thesis
    using k by (auto intro: map_inj_on)
qed

section \<open>The result of listing a directory\<close>

lemma list_directory_opened:
  "opendir fs dirpath = Some dir \<Longrightarrow>
   list_directory fs dirpath imagepaths (status, out) \<longleftrightarrow>
     status = 0 \<and> std_sort compare_path_natural (regular_names dir) out"
  by (simp add: list_directory_def readdir_loop_eq)

lemma list_directory_not_opened:
  "opendir fs dirpath = None \<Longrightarrow>
   list_directory fs dirpath imagepaths (status, out) \<longleftrightarrow> status = - 1 \<and> out = []"
  by (simp add: list_directory_def)

text \<open>
  C1. For a directory that can be opened, \<open>list_directory\<close> returns, and whatever it
  returns has status 0 and an output sequence that holds exactly the names that
  \<open>readdir\<close> reported for regular files (as reported, relative to the directory; each as
  often as it was reported), sorted ascending by \<open>compare_path_natural\<close>. When the
  regular files are \<open>img2.jpg\<close>, \<open>img10.jpg\<close>, \<open>img1.jpg\<close> and \<open>IMG3.jpg\<close>, in whatever
  order they are enumerated, the output is exactly \<open>img1.jpg\<close>, \<open>img2.jpg\<close>, \<open>IMG3.jpg\<close>,
  \<open>img10.jpg\<close>.
\<close>

theorem list_directory_sorted_regular_files:
  assumes "opendir fs dirpath = Some dir"
  shows "(\<exists>out. list_directory fs dirpath imagepaths (0, out))
    \<and> (\<forall>status out. list_directory fs dirpath imagepaths (status, out) \<longrightarrow>
          status = 0
          \<and> mset out = mset (regular_names dir)
          \<and> sorted_by compare_path_natural out
          \<and> (mset (regular_names dir)
               = mset [''img2.jpg'', ''img10.jpg'', ''img1.jpg'', ''IMG3.jpg''] \<longrightarrow>
             out = [''img1.jpg'', ''img2.jpg'', ''IMG3.jpg'', ''img10.jpg'']))"
proof (intro conjI allI impI)
  show "\<exists>out. list_directory fs dirpath imagepaths (0, out)"
    using std_sort_exists [of "regular_names dir"]
    by (auto simp: list_directory_opened [OF assms])
next
  fix status out
  assume l: "list_directory fs dirpath imagepaths (status, out)"
  then have s: "std_sort compare_path_natural (regular_names dir) out"
    by (simp add: list_directory_opened [OF assms])
  from l show "status = 0"
    by (simp add: list_directory_opened [OF assms])
  from s show "mset out = mset (regular_names dir)" "sorted_by compare_path_natural out"
    by (simp_all add: std_sort_def)
  assume m: "mset (regular_names dir)
      = mset [''img2.jpg'', ''img10.jpg'', ''img1.jpg'', ''IMG3.jpg'']"
  have c: "compare_path_natural ''img1.jpg'' ''img2.jpg''"
    "compare_path_natural ''img1.jpg'' ''IMG3.jpg''"
    "compare_path_natural ''img1.jpg'' ''img10.jpg''"
    "compare_path_natural ''img2.jpg'' ''IMG3.jpg''"
    "compare_path_natural ''img2.jpg'' ''img10.jpg''"
    "compare_path_natural ''IMG3.jpg'' ''img10.jpg''"
    by code_simp+
  have "mset [''img1.jpg'', ''img2.jpg'', ''IMG3.jpg'', ''img10.jpg''] = mset (regular_names dir)"
    unfolding m by simp
  moreover have "sorted_wrt compare_path_natural
      [''img1.jpg'', ''img2.jpg'', ''IMG3.jpg'', ''img10.jpg'']"
    using c by simp
  ultimately show "out = [''img1.jpg'', ''img2.jpg'', ''IMG3.jpg'', ''img10.jpg'']"
    by (rule std_sort_unique [OF s])
qed

theorem list_directory_sorted_regular_files_witness:
  "list_directory frames_fs ''frames'' [''stale.jpg'']
     (0, [''img1.jpg'', ''img2.jpg'', ''IMG3.jpg'', ''img10.jpg''])"
proof -
  let ?dir = "the (frames_fs ''frames'')"
  have o: "opendir frames_fs ''frames'' = Some ?dir"
    by (simp add: opendir_def frames_fs_def)
  have r: "regular_names ?dir = [''img2.jpg'', ''img10.jpg'', ''img1.jpg'', ''IMG3.jpg'']"
    by (simp add: frames_fs_def regular_names_def DT_REG_def DT_DIR_def)
  from list_directory_sorted_regular_files [OF o, of "[''stale.jpg'']"]
  show ?thesis
    unfolding r by blast
qed

text \<open>
  Bytes above 127: the byte 0xFF is \<open>-1\<close> as a \<^verbatim>\<open>char\<close> and stays \<open>-1\<close> under
  \<open>toupper\<close>, so its name comes first; the byte 0x80 is \<open>-128\<close> and becomes \<open>128\<close> under
  \<open>toupper\<close>, so its name comes after the letters.
\<close>

lemma list_directory_bytes:
  "list_directory bytes_fs ''bytes'' imagepaths (status, out) \<longleftrightarrow>
     status = 0 \<and> out = [CHR 0xFF # ''.png'', ''a.png'', CHR 0x80 # ''.png'']"
proof -
  define dir where "dir = the (bytes_fs ''bytes'')"
  define zs where "zs = [CHR 0xFF # ''.png'', ''a.png'', CHR 0x80 # ''.png'']"
  have o: "opendir bytes_fs ''bytes'' = Some dir"
    by (simp add: opendir_def bytes_fs_def dir_def)
  have r: "regular_names dir = [CHR 0x80 # ''.png'', ''a.png'', CHR 0xFF # ''.png'']"
    by (simp add: bytes_fs_def regular_names_def DT_REG_def dir_def)
  have c: "compare_path_natural (CHR 0xFF # ''.png'') ''a.png''"
    "compare_path_natural (CHR 0xFF # ''.png'') (CHR 0x80 # ''.png'')"
    "compare_path_natural ''a.png'' (CHR 0x80 # ''.png'')"
    by code_simp+
  then have w: "sorted_wrt compare_path_natural zs"
    by (simp add: zs_def)
  have m: "mset zs = mset (regular_names dir)"
    unfolding r zs_def by simp
  have u: "out = zs" if "std_sort compare_path_natural (regular_names dir) out" for out
    using that m w by (rule std_sort_unique)
  have n: "\<not> compare_path_natural ''a.png'' (CHR 0xFF # ''.png'')"
    "\<not> compare_path_natural (CHR 0x80 # ''.png'') (CHR 0xFF # ''.png'')"
    "\<not> compare_path_natural (CHR 0x80 # ''.png'') ''a.png''"
    by code_simp+
  have "sorted_by compare_path_natural zs"
    using n by (simp add: sorted_by_def zs_def)
  then have v: "std_sort compare_path_natural (regular_names dir) zs"
    unfolding std_sort_def using m by blast
  show ?thesis
    unfolding list_directory_opened [OF o] zs_def [symmetric]
    using u v by blast
qed

text \<open>
  C4. For a path that cannot be opened as a directory, \<open>list_directory\<close> returns the
  nonzero status \<open>-1\<close> and leaves the output sequence empty, whatever it held before the
  call. For a path that can be opened, it returns, and always with status 0.
\<close>

theorem list_directory_status:
  "(opendir fs dirpath = None \<longrightarrow>
      list_directory fs dirpath imagepaths (- 1, [])
      \<and> (\<forall>status out. list_directory fs dirpath imagepaths (status, out) \<longrightarrow>
            status \<noteq> 0 \<and> out = []))
   \<and> (opendir fs dirpath \<noteq> None \<longrightarrow>
      (\<exists>out. list_directory fs dirpath imagepaths (0, out))
      \<and> (\<forall>status out. list_directory fs dirpath imagepaths (status, out) \<longrightarrow> status = 0))"
proof (intro conjI allI impI)
  assume n: "opendir fs dirpath = None"
  show "list_directory fs dirpath imagepaths (- 1, [])"
    by (simp add: list_directory_not_opened [OF n])
  fix status out
  assume "list_directory fs dirpath imagepaths (status, out)"
  then show "status \<noteq> 0" "out = []"
    by (simp_all add: list_directory_not_opened [OF n])
next
  assume "opendir fs dirpath \<noteq> None"
  then obtain dir where o: "opendir fs dirpath = Some dir" by auto
  show "\<exists>out. list_directory fs dirpath imagepaths (0, out)"
    using std_sort_exists [of "regular_names dir"]
    by (auto simp: list_directory_opened [OF o])
  fix status out
  assume "list_directory fs dirpath imagepaths (status, out)"
  then show "status = 0"
    by (simp add: list_directory_opened [OF o])
qed


theorem list_directory_status_witness:
  "list_directory frames_fs ''missing'' [''stale.jpg''] (- 1, [])
   \<and> \<not> list_directory frames_fs ''missing'' [''stale.jpg''] (0, [''stale.jpg''])
   \<and> \<not> list_directory frames_fs ''frames'' [''stale.jpg''] (- 1, [])"
proof -
  have n: "opendir frames_fs ''missing'' = None"
    by (simp add: opendir_def frames_fs_def)
  have o: "opendir frames_fs ''frames'' \<noteq> None"
    by (simp add: opendir_def frames_fs_def)
  have 1: "list_directory frames_fs ''missing'' [''stale.jpg''] (- 1, [])"
    "\<not> list_directory frames_fs ''missing'' [''stale.jpg''] (0, [''stale.jpg''])"
    using list_directory_status [of frames_fs "''missing''" "[''stale.jpg'']"] n by blast+
  have 2: "\<not> list_directory frames_fs ''frames'' [''stale.jpg''] (- 1, [])"
    using list_directory_status [of frames_fs "''frames''" "[''stale.jpg'']"] o by fastforce
  from 1 2 show ?thesis by blast
qed

section \<open>Sorting a sequence that is already sorted\<close>

lemma map_eq_list_all2:
  "map f xs = map f ys \<Longrightarrow> list_all2 (\<lambda>x y. f x = f y) xs ys"
proof (induction xs arbitrary: ys)
  case Nil
  then show ?case by simp
next
  case (Cons x xs)
  then show ?case by (cases ys) auto
qed

lemma std_sort_same: "sorted_by lt xs \<Longrightarrow> std_sort lt xs xs"
  by (simp add: std_sort_def)

subsection \<open>Seventeen equivalent names\<close>

text \<open>
  Seventeen names that differ only in the number of zeros before the digit 1 are
  pairwise equivalent, so in the order below they are sorted.
\<close>

definition padded_names :: "path_t list" where
  "padded_names =
    [''f1'', ''f01'', ''f001'', ''f0001'', ''f00001'', ''f000001'', ''f0000001'',
     ''f00000001'', ''f000000001'', ''f0000000001'', ''f00000000001'',
     ''f000000000001'', ''f0000000000001'', ''f00000000000001'', ''f000000000000001'',
     ''f0000000000000001'', ''f00000000000000001'']"

text \<open>
  On more than sixteen elements the introsort of the GNU C++ library first exchanges the
  first element with the middle one, as the pivot, and then partitions, exchanging from
  both ends, pair by pair, the elements that are equivalent to the pivot; on the
  seventeen names it leaves them in the following order, which the final insertion pass
  does not change.
\<close>

definition padded_names_sorted :: "path_t list" where
  "padded_names_sorted =
    [''f000000001'', ''f00000000000000001'', ''f0000000000000001'',
     ''f000000000000001'', ''f00000000000001'', ''f0000000000001'', ''f000000000001'',
     ''f00000000001'', ''f0000000001'', ''f1'', ''f00000001'', ''f0000001'',
     ''f000001'', ''f00001'', ''f0001'', ''f001'', ''f01'']"

lemma padded_names_sorted_by: "sorted_by compare_path_natural padded_names"
  by code_simp

lemma padded_names_std_sort:
  "std_sort compare_path_natural padded_names padded_names_sorted"
proof -
  have "sorted_by compare_path_natural padded_names_sorted"
    by code_simp
  moreover have "mset padded_names_sorted = mset padded_names"
    by (simp add: padded_names_def padded_names_sorted_def)
  ultimately show ?thesis
    by (simp add: std_sort_def)
qed

lemma padded_names_moved: "padded_names_sorted \<noteq> padded_names"
  by (simp add: padded_names_def padded_names_sorted_def)

subsection \<open>What sorting a sorted sequence gives\<close>

text \<open>
  C9. For a sequence that is already sorted ascending by \<open>compare_path_natural\<close>, the
  identical sequence is a permitted result of the sort, and every permitted result has
  the same length and holds at each position a string equivalent to the one the input
  holds there. When no two different strings of the sequence are equivalent, the result
  is the identical sequence.
\<close>

theorem std_sort_of_sorted:
  assumes "sorted_by compare_path_natural xs"
    and "std_sort compare_path_natural xs ys"
  shows "std_sort compare_path_natural xs xs
    \<and> list_all2 equivalent xs ys
    \<and> ((\<forall>x \<in> set xs. \<forall>y \<in> set xs. equivalent x y \<longrightarrow> x = y) \<longrightarrow> ys = xs)"
proof (intro conjI impI)
  show "std_sort compare_path_natural xs xs"
    using assms(1) by (rule std_sort_same)
next
  have "sort (map path_key xs) = map path_key xs"
    using assms(1) by (simp add: sorted_by_key sorted_sort_id)
  with std_sort_keys [OF assms(2)] have k: "map path_key xs = map path_key ys"
    by simp
  then have "list_all2 (\<lambda>x y. path_key x = path_key y) xs ys"
    by (rule map_eq_list_all2)
  then show "list_all2 equivalent xs ys"
    by (simp add: equivalent_key [abs_def])
  assume "\<forall>x \<in> set xs. \<forall>y \<in> set xs. equivalent x y \<longrightarrow> x = y"
  then have "inj_on path_key (set xs)"
    by (auto simp: inj_on_def equivalent_key)
  moreover have "set ys = set xs"
    using assms(2) by (metis std_sort_def mset_eq_setD)
  ultimately show "ys = xs"
    using k by (auto intro: map_inj_on [symmetric])
qed

theorem std_sort_of_sorted_witness:
  "std_sort compare_path_natural padded_names padded_names
   \<and> list_all2 equivalent padded_names padded_names_sorted"
  using std_sort_of_sorted [OF padded_names_sorted_by padded_names_std_sort]
  by blast

text \<open>
  The relative order of equivalent strings need not be kept, and \<^verbatim>\<open>std::sort\<close> does not
  keep it: the seventeen names are sorted as they stand, and sorting them leaves them
  in another order.
\<close>

theorem std_sort_of_sorted_counterexample:
  "sorted_by compare_path_natural padded_names
   \<and> std_sort compare_path_natural padded_names padded_names_sorted
   \<and> padded_names_sorted \<noteq> padded_names"
  using padded_names_sorted_by padded_names_std_sort padded_names_moved
  by blast

end
